theory Spec2Isabelle
  imports Main
begin

section \<open>JavaScript values carried by the message channel\<close>

text \<open>
  The numbers of the model are the safe integers, from \<open>-(2^53 - 1)\<close> to \<open>2^53 - 1\<close>:
  the numbers a double holds exactly and prints digit by digit. Fractions, larger
  doubles (printed in rounded or exponent form), \<open>NaN\<close> and the infinities are not
  values of the model.
\<close>

typedef number = "{n::int. - 9007199254740991 \<le> n \<and> n \<le> 9007199254740991}"
  morphisms the_int Number
  by (rule exI [of _ 0]) simp

text \<open>
  \<open>event.data\<close> and every payload field is typed \<open>any\<close> in the source, so the handler
  can meet any structured-clone value; a clone holds no functions and no symbols. The
  only falsy number of the model is \<open>0\<close>. An object is an association list of its own
  properties; the first binding of a key is the property.
\<close>

datatype json =
    JUndefined
  | JNull
  | JBool bool
  | JNum number
  | JStr string
  | JArr "json list"
  | JObj "(string \<times> json) list"

text \<open>
  The errors the source constructs: \<open>new Error(message)\<close>, the \<open>RpcError\<close> class with
  its message, \<open>code\<close> and \<open>reason\<close>, and the TypeError the runtime throws (its message
  is the engine's own and is not modelled).
\<close>

datatype js_error =
    Error string
  | TypeError
  | RpcError string json json

text \<open>\<open>!data\<close> is true exactly on the falsy values.\<close>

fun truthy :: "json \<Rightarrow> bool" where
  "truthy JUndefined = False"
| "truthy JNull = False"
| "truthy (JBool b) = b"
| "truthy (JNum n) = (the_int n \<noteq> 0)"
| "truthy (JStr s) = (s \<noteq> [])"
| "truthy (JArr xs) = True"
| "truthy (JObj fs) = True"

text \<open>Reading a property of \<open>undefined\<close> or \<open>null\<close> throws a TypeError.\<close>

fun nullish :: "json \<Rightarrow> bool" where
  "nullish JUndefined = True"
| "nullish JNull = True"
| "nullish v = False"

text \<open>
  \<open>v.k\<close> for a receiver that is not nullish and one of the property names the source
  reads (\<open>jsonrpc\<close>, \<open>id\<close>, \<open>method\<close>, \<open>params\<close>, \<open>result\<close>, \<open>error\<close>, \<open>code\<close>,
  \<open>reason\<close>, \<open>message\<close>): none of them is a property of a primitive, of an array or of
  \<open>Object.prototype\<close>, so only an object's own property can answer.
\<close>

fun field :: "json \<Rightarrow> string \<Rightarrow> json" where
  "field (JObj fs) k = (case map_of fs k of None \<Rightarrow> JUndefined | Some v \<Rightarrow> v)"
| "field v k = JUndefined"

text \<open>\<open>k in v\<close> for the same property names, on a value that passed the version check.\<close>

fun has_field :: "json \<Rightarrow> string \<Rightarrow> bool" where
  "has_field (JObj fs) k = (k \<in> set (map fst fs))"
| "has_field v k = False"

subsection \<open>Number and value to string\<close>

definition digit :: "nat \<Rightarrow> char" where
  "digit d = char_of (48 + d)"

function string_of_nat :: "nat \<Rightarrow> string" where
  "string_of_nat n =
     (if n < 10 then [digit n] else string_of_nat (n div 10) @ [digit (n mod 10)])"
  by pat_completeness auto
termination
  by (relation "measure id") auto

declare string_of_nat.simps [simp del]

text \<open>
  Number to string on a safe integer: the decimal digits, after a minus sign when the
  number is negative.
\<close>

definition Number_toString :: "number \<Rightarrow> string" where
  "Number_toString n =
     (if the_int n < 0 then CHR ''-'' # string_of_nat (nat (- the_int n))
      else string_of_nat (nat (the_int n)))"

fun join_comma :: "string list \<Rightarrow> string" where
  "join_comma [] = []"
| "join_comma [s] = s"
| "join_comma (s # t # ss) = s @ CHR '','' # join_comma (t # ss)"

text \<open>
  \<open>'' + v\<close>, \<open>`${v}`\<close> and the conversion of a property key: the string of a value, or
  \<open>None\<close> when the conversion throws a TypeError. An array joins the strings of its
  elements, with the empty string for \<open>undefined\<close> and \<open>null\<close>. An object answers with
  the inherited \<open>Object.prototype.toString\<close> unless it has an own property \<open>toString\<close>:
  in a clone that property is not callable, and neither it nor \<open>valueOf\<close> yields a
  primitive.
\<close>

fun ToString :: "json \<Rightarrow> string option" where
  "ToString JUndefined = Some ''undefined''"
| "ToString JNull = Some ''null''"
| "ToString (JBool b) = Some (if b then ''true'' else ''false'')"
| "ToString (JNum n) = Some (Number_toString n)"
| "ToString (JStr s) = Some s"
| "ToString (JArr xs) =
     map_option join_comma (those (map (\<lambda>v. if nullish v then Some [] else ToString v) xs))"
| "ToString (JObj fs) =
     (if ''toString'' \<in> set (map fst fs) then None else Some ''[object Object]'')"

text \<open>\<open>v[i]\<close> for a receiver that is not nullish.\<close>

fun element :: "json \<Rightarrow> nat \<Rightarrow> json" where
  "element (JArr xs) i = (if i < length xs then xs ! i else JUndefined)"
| "element (JStr s) i = (if i < length s then JStr [s ! i] else JUndefined)"
| "element (JObj fs) i = (case map_of fs (string_of_nat i) of None \<Rightarrow> JUndefined | Some v \<Rightarrow> v)"
| "element v i = JUndefined"

section \<open>The provider state\<close>

definition DEFAULT_TARGET_ORIGIN :: string where
  "DEFAULT_TARGET_ORIGIN = ''*''"

definition DEFAULT_TIMEOUT_MILLISECONDS :: number where
  "DEFAULT_TIMEOUT_MILLISECONDS = Number 60000"

definition JSON_RPC_VERSION :: string where
  "JSON_RPC_VERSION = ''2.0''"

text \<open>
  A promise created by a call is named by its number. A completer \<open>{resolve, reject}\<close> is
  the pair of callbacks of one promise, so the table holds the promise's number; every
  invocation of a callback is appended to \<open>settled\<close>. The timer a call arms is a closure
  over the identifier only; \<open>timers\<close> holds the closures not yet fired, keyed by the call
  that armed them. \<open>posted\<close> lists the \<open>window.parent.postMessage\<close> calls and \<open>emitted\<close>
  the \<open>emit\<close> calls, both in order. \<open>nested\<close> is \<open>window.parent !== window.self\<close>.
\<close>

datatype settlement = Resolve json | Reject js_error

record provider =
  targetOrigin :: string
  timeoutMilliseconds :: number
  nested :: bool
  completers :: "string \<rightharpoonup> nat"
  timers :: "nat \<rightharpoonup> string"
  posted :: "(json \<times> string) list"
  settled :: "(nat \<times> settlement) list"
  emitted :: "(string \<times> json list) list"
  promises :: nat

text \<open>
  The constructor, with the two options given (the source defaults them to
  \<open>DEFAULT_TARGET_ORIGIN\<close> and \<open>DEFAULT_TIMEOUT_MILLISECONDS\<close>) and the window it
  runs in.
\<close>

definition new_provider :: "string \<Rightarrow> number \<Rightarrow> bool \<Rightarrow> provider" where
  "new_provider origin timeout n =
     \<lparr> targetOrigin = origin, timeoutMilliseconds = timeout, nested = n,
       completers = Map.empty, timers = Map.empty, posted = [], settled = [],
       emitted = [], promises = 0 \<rparr>"

definition isEmbeddedInIFrame :: "provider \<Rightarrow> bool" where
  "isEmbeddedInIFrame st = nested st"

text \<open>
  \<open>Math.floor(Math.random() * Number.MAX_SAFE_INTEGER)\<close> is an integer the runtime
  draws, below \<open>2^53\<close>, where \<open>'' + n\<close> prints the decimal digits; the draw is an
  input of the model and \<open>getUniqueId\<close> renders it.
\<close>

definition getUniqueId :: "nat \<Rightarrow> string" where
  "getUniqueId draw = [] @ string_of_nat draw"

text \<open>
  \<open>this.completers[key]\<close> on the object literal \<open>{}\<close>: an own property is a completer; a
  name of \<open>Object.prototype\<close> answers with a truthy value that has neither \<open>resolve\<close> nor
  \<open>reject\<close>; any other key is \<open>undefined\<close>.
\<close>

definition object_prototype_keys :: "string list" where
  "object_prototype_keys =
     [''constructor'', ''__proto__'', ''hasOwnProperty'', ''isPrototypeOf'',
      ''propertyIsEnumerable'', ''toLocaleString'', ''toString'', ''valueOf'',
      ''__defineGetter__'', ''__defineSetter__'', ''__lookupGetter__'', ''__lookupSetter__'']"

datatype completer_ref = NoCompleter | Inherited | Completer nat

definition lookup_completer :: "provider \<Rightarrow> string \<Rightarrow> completer_ref" where
  "lookup_completer st key =
     (case completers st key of
        Some c \<Rightarrow> Completer c
      | None \<Rightarrow> if key \<in> set object_prototype_keys then Inherited else NoCompleter)"

definition invoke :: "nat \<Rightarrow> settlement \<Rightarrow> provider \<Rightarrow> provider" where
  "invoke c s st = st\<lparr>settled := settled st @ [(c, s)]\<rparr>"

definition delete_completer :: "string \<Rightarrow> provider \<Rightarrow> provider" where
  "delete_completer key st = st\<lparr>completers := (completers st)(key := None)\<rparr>"

definition emit :: "string \<Rightarrow> json list \<Rightarrow> provider \<Rightarrow> provider" where
  "emit name args st = st\<lparr>emitted := emitted st @ [(name, args)]\<rparr>"


section \<open>First implementation (lines 1-323): \<open>execute\<close>, \<open>send\<close>, the timer, the handler\<close>

text \<open>
  What \<open>throw new RpcError(code, reason)\<close> throws: the \<open>RpcError\<close>, or the TypeError of
  the template literal in its constructor when \<open>code\<close> or \<open>reason\<close> has no string.
\<close>

definition new_RpcError :: "json \<Rightarrow> json \<Rightarrow> js_error" where
  "new_RpcError c r =
     (case ToString c of
        None \<Rightarrow> TypeError
      | Some cs \<Rightarrow>
          (case ToString r of
             None \<Rightarrow> TypeError
           | Some rs \<Rightarrow> RpcError (''JSON RPC returned an error code '' @ cs @ '': '' @ rs) c r))"

text \<open>The \<open>code\<close> and \<open>reason\<close> properties of a thrown value.\<close>

fun error_code :: "js_error \<Rightarrow> json" where
  "error_code (RpcError m c r) = c"
| "error_code e = JUndefined"

fun error_reason :: "js_error \<Rightarrow> json" where
  "error_reason (RpcError m c r) = r"
| "error_reason e = JUndefined"

fun is_RpcError :: "js_error \<Rightarrow> bool" where
  "is_RpcError (RpcError m c r) = True"
| "is_RpcError e = False"

definition request_payload :: "string \<Rightarrow> string \<Rightarrow> json \<Rightarrow> json" where
  "request_payload ident method params =
     JObj [(''jsonrpc'', JStr JSON_RPC_VERSION), (''id'', JStr ident),
           (''method'', JStr method), (''params'', params)]"

text \<open>
  \<open>execute\<close> is an async function: \<open>Inl e\<close> is the promise rejected by the \<open>throw\<close> at
  its head, \<open>Inr p\<close> the pending promise \<open>p\<close> whose completer was stored. The three
  statements after the check run in the order of the source (store the completer, post
  the payload, arm the timer); \<open>postMessage\<close> and \<open>setTimeout\<close> belong to the host and
  are taken to return normally.
\<close>

definition execute :: "nat \<Rightarrow> string \<Rightarrow> json \<Rightarrow> provider \<Rightarrow> provider \<times> (js_error + nat)" where
  "execute draw method params st =
     (if \<not> isEmbeddedInIFrame st then (st, Inl (Error ''Not embedded within an iframe.''))
      else
        let ident = getUniqueId draw;
            payload = request_payload ident method params;
            p = promises st
        in (st\<lparr> promises := Suc p,
                completers := (completers st)(ident \<mapsto> p),
                posted := posted st @ [(payload, targetOrigin st)],
                timers := (timers st)(p \<mapsto> ident) \<rparr>,
            Inr p))"

definition dquote :: char where
  "dquote = CHR 0x22"

definition timeout_error :: "string \<Rightarrow> number \<Rightarrow> js_error" where
  "timeout_error ident ms =
     Error (''RPC ID '' @ [dquote] @ ident @ [dquote] @ '' timed out after ''
            @ Number_toString ms @ '' milliseconds'')"

text \<open>
  The callback given to \<open>window.setTimeout\<close>, closed over \<open>ident\<close>. The second component
  is the exception it lets escape, if any.
\<close>

definition timeout_callback :: "string \<Rightarrow> provider \<Rightarrow> provider \<times> js_error option" where
  "timeout_callback ident st =
     (case lookup_completer st ident of
        NoCompleter \<Rightarrow> (st, None)
      | Inherited \<Rightarrow> (st, Some TypeError)
      | Completer c \<Rightarrow>
          (delete_completer ident
             (invoke c (Reject (timeout_error ident (timeoutMilliseconds st))) st), None))"

text \<open>
  \<open>send\<close> up to its \<open>await\<close>, and the rest of \<open>send\<close> once the promise of \<open>execute\<close> is
  settled: what the promise returned by \<open>send\<close> settles with.
\<close>

definition send :: "nat \<Rightarrow> string \<Rightarrow> json \<Rightarrow> provider \<Rightarrow> provider \<times> (js_error + nat)" where
  "send draw method params st =
     (if \<not> isEmbeddedInIFrame st then (st, Inl (Error ''Not embedded within an iframe.''))
      else execute draw method params st)"

fun send_settle :: "settlement \<Rightarrow> settlement" where
  "send_settle (Reject e) = Reject e"
| "send_settle (Resolve response) =
     (if has_field response ''error'' then
        (let err = field response ''error'' in
         if nullish err then Reject TypeError
         else Reject (new_RpcError (field err ''code'') (field err ''reason'')))
      else Resolve (field response ''result''))"

text \<open>Lines 255-268: the response half of the handler.\<close>

definition complete_pending :: "provider \<Rightarrow> json \<Rightarrow> provider \<times> js_error option" where
  "complete_pending st message =
     (let ident = field message ''id'' in
      if ident \<noteq> JUndefined \<and> ident \<noteq> JNull then
        (case ToString ident of
           None \<Rightarrow> (st, Some TypeError)
         | Some key \<Rightarrow>
             (case lookup_completer st key of
                NoCompleter \<Rightarrow> (st, None)
              | Inherited \<Rightarrow>
                  if has_field message ''error'' \<or> has_field message ''result''
                  then (st, Some TypeError)
                  else (delete_completer key st, None)
              | Completer c \<Rightarrow>
                  (delete_completer key
                     (if has_field message ''error'' \<or> has_field message ''result''
                      then invoke c (Resolve message) st else st), None)))
      else (st, None))"

text \<open>Lines 270-297: the notification half, shared verbatim by both implementations.\<close>

definition dispatch_method :: "provider \<Rightarrow> json \<Rightarrow> provider \<times> js_error option" where
  "dispatch_method st message =
     (if has_field message ''method'' then
        (let m = field message ''method''; params = field message ''params'' in
         if m = JStr ''notification'' then (emit ''notification'' [params] st, None)
         else if m = JStr ''connect'' then (emit ''connect'' [] st, None)
         else if m = JStr ''close'' then
           (if nullish params then (st, Some TypeError)
            else (emit ''close'' [element params 0, element params 1] st, None))
         else if m = JStr ''chainChanged'' then
           (if nullish params then (st, Some TypeError)
            else (emit ''chainChanged'' [element params 0] st, None))
         else if m = JStr ''networkChanged'' then
           (if nullish params then (st, Some TypeError)
            else (emit ''networkChanged'' [element params 0] st, None))
         else if m = JStr ''accountsChanged'' then
           (if nullish params then (st, Some TypeError)
            else (emit ''accountsChanged'' [element params 0] st, None))
         else (st, None))
      else (st, None))"

definition handleParentWindowMessage :: "provider \<Rightarrow> json \<Rightarrow> provider \<times> js_error option" where
  "handleParentWindowMessage st data =
     (if \<not> truthy data then (st, None)
      else if field data ''jsonrpc'' \<noteq> JStr JSON_RPC_VERSION then (st, None)
      else
        (case complete_pending st data of
           (st1, Some e) \<Rightarrow> (st1, Some e)
         | (st1, None) \<Rightarrow> dispatch_method st1 data))"

section \<open>Second implementation (lines 325-597): \<open>send\<close>, the timer, the handler\<close>

text \<open>
  \<open>new Error(v)\<close>: the message is empty for \<open>undefined\<close> and the string of \<open>v\<close> otherwise;
  \<open>None\<close> when that conversion throws a TypeError.
\<close>

definition new_Error :: "json \<Rightarrow> js_error option" where
  "new_Error v = (if v = JUndefined then Some (Error []) else map_option Error (ToString v))"

definition send2 :: "nat \<Rightarrow> string \<Rightarrow> json \<Rightarrow> provider \<Rightarrow> provider \<times> (js_error + nat)" where
  "send2 draw method params st =
     (if \<not> isEmbeddedInIFrame st then (st, Inl (Error ''Not embedded within an iframe.''))
      else
        let ident = getUniqueId draw;
            payload = request_payload ident method params;
            p = promises st
        in (st\<lparr> promises := Suc p,
                completers := (completers st)(ident \<mapsto> p),
                posted := posted st @ [(payload, targetOrigin st)],
                timers := (timers st)(p \<mapsto> ident) \<rparr>,
            Inr p))"

definition timeout_error2 :: "string \<Rightarrow> number \<Rightarrow> js_error" where
  "timeout_error2 ident ms =
     Error (''RPC ID '' @ ident @ '' timed out after '' @ Number_toString ms @ '' milliseconds'')"

definition timeout_callback2 :: "string \<Rightarrow> provider \<Rightarrow> provider \<times> js_error option" where
  "timeout_callback2 ident st =
     (case lookup_completer st ident of
        NoCompleter \<Rightarrow> (st, None)
      | Inherited \<Rightarrow> (st, Some TypeError)
      | Completer c \<Rightarrow>
          (delete_completer ident
             (invoke c (Reject (timeout_error2 ident (timeoutMilliseconds st))) st), None))"

text \<open>Lines 526-542: the response half of the second handler.\<close>

definition complete_pending2 :: "provider \<Rightarrow> json \<Rightarrow> provider \<times> js_error option" where
  "complete_pending2 st message =
     (let ident = field message ''id'' in
      if ident \<noteq> JUndefined \<and> ident \<noteq> JNull then
        (case ToString ident of
           None \<Rightarrow> (st, Some TypeError)
         | Some key \<Rightarrow>
             (case lookup_completer st key of
                NoCompleter \<Rightarrow> (st, None)
              | Inherited \<Rightarrow>
                  if has_field message ''error'' then (st, Some TypeError)
                  else if has_field message ''result'' then (st, Some TypeError)
                  else (delete_completer key st, None)
              | Completer c \<Rightarrow>
                  if has_field message ''error'' then
                    (let err = field message ''error'' in
                     if nullish err then (st, Some TypeError)
                     else
                       (case new_Error (field err ''message'') of
                          None \<Rightarrow> (st, Some TypeError)
                        | Some e \<Rightarrow> (delete_completer key (invoke c (Reject e) st), None)))
                  else if has_field message ''result'' then
                    (delete_completer key (invoke c (Resolve (field message ''result'')) st), None)
                  else (delete_completer key st, None)))
      else (st, None))"

definition handleJsonrpcMessage :: "provider \<Rightarrow> json \<Rightarrow> provider \<times> js_error option" where
  "handleJsonrpcMessage st data =
     (if \<not> truthy data then (st, None)
      else if field data ''jsonrpc'' \<noteq> JStr JSON_RPC_VERSION then (st, None)
      else
        (case complete_pending2 st data of
           (st1, Some e) \<Rightarrow> (st1, Some e)
         | (st1, None) \<Rightarrow> dispatch_method st1 data))"

section \<open>Runs of the event loop\<close>

text \<open>
  The host runs one callback to completion at a time: a call of \<open>send\<close> with the draw of
  its identifier, a message event, or the expiry of the timer armed by call \<open>p\<close> (each
  timer fires at most once). An exception escaping a callback goes to the host; the
  effects made before it stay.
\<close>

datatype event = Send nat string json | Message json | Timeout nat

fun step :: "provider \<Rightarrow> event \<Rightarrow> provider" where
  "step st (Send draw method params) = fst (send draw method params st)"
| "step st (Message data) = fst (handleParentWindowMessage st data)"
| "step st (Timeout p) =
     (case timers st p of
        None \<Rightarrow> st
      | Some ident \<Rightarrow> fst (timeout_callback ident (st\<lparr>timers := (timers st)(p := None)\<rparr>)))"

fun step2 :: "provider \<Rightarrow> event \<Rightarrow> provider" where
  "step2 st (Send draw method params) = fst (send2 draw method params st)"
| "step2 st (Message data) = fst (handleJsonrpcMessage st data)"
| "step2 st (Timeout p) =
     (case timers st p of
        None \<Rightarrow> st
      | Some ident \<Rightarrow> fst (timeout_callback2 ident (st\<lparr>timers := (timers st)(p := None)\<rparr>)))"

definition run :: "provider \<Rightarrow> event list \<Rightarrow> provider" where
  "run st evs = foldl step st evs"

definition run2 :: "provider \<Rightarrow> event list \<Rightarrow> provider" where
  "run2 st evs = foldl step2 st evs"

text \<open>How often a callback of promise \<open>p\<close> was invoked, and what the promise settled with.\<close>

definition invocations :: "provider \<Rightarrow> nat \<Rightarrow> nat" where
  "invocations st p = length (filter (\<lambda>e. fst e = p) (settled st))"

definition outcome :: "provider \<Rightarrow> nat \<Rightarrow> settlement option" where
  "outcome st p = map_of (settled st) p"

section \<open>Vocabulary of the properties\<close>

text \<open>
  An event is regular at a state when it stays inside the two assumptions the provider
  makes about its environment: a call draws an identifier that is not in the table, and
  a message that passes the version check and names a pending call carries a \<open>result\<close>
  or an \<open>error\<close>.
\<close>

fun regular :: "provider \<Rightarrow> event \<Rightarrow> bool" where
  "regular st (Send draw method params) = (completers st (getUniqueId draw) = None)"
| "regular st (Message data) =
     (field data ''jsonrpc'' = JStr JSON_RPC_VERSION
      \<and> \<not> nullish (field data ''id'')
      \<and> (case ToString (field data ''id'') of None \<Rightarrow> False | Some key \<Rightarrow> completers st key \<noteq> None)
      \<longrightarrow> has_field data ''error'' \<or> has_field data ''result'')"
| "regular st (Timeout p) = True"

fun regular_run :: "(provider \<Rightarrow> event \<Rightarrow> provider) \<Rightarrow> provider \<Rightarrow> event list \<Rightarrow> bool" where
  "regular_run f st [] = True"
| "regular_run f st (e # es) = (regular st e \<and> regular_run f (f st e) es)"

text \<open>
  What one callback can do to the state. The flag is \<open>False\<close> for the two effects that
  only an event that is not regular has: storing a completer over an existing key, and
  deleting a completer without invoking it.
\<close>

inductive effect :: "bool \<Rightarrow> provider \<Rightarrow> provider \<Rightarrow> bool" where
  quiet: "effect b st (st\<lparr>emitted := X\<rparr>)"
| completes: "completers st k = Some c \<Longrightarrow>
     effect b st ((delete_completer k (invoke c s st))\<lparr>emitted := X\<rparr>)"
| expires_idle: "timers st p = Some k \<Longrightarrow> completers st k = None \<Longrightarrow>
     effect b st (st\<lparr>timers := (timers st)(p := None)\<rparr>)"
| expires: "timers st p = Some k \<Longrightarrow> completers st k = Some c \<Longrightarrow>
     effect b st (delete_completer k (invoke c s (st\<lparr>timers := (timers st)(p := None)\<rparr>)))"
| registers: "completers st k = None \<Longrightarrow>
     effect b st (st\<lparr> promises := Suc (promises st),
                       completers := (completers st)(k \<mapsto> promises st),
                       posted := Y,
                       timers := (timers st)(promises st \<mapsto> k) \<rparr>)"
| overwrites: "effect False st (st\<lparr> promises := Suc (promises st),
                       completers := (completers st)(k \<mapsto> promises st),
                       posted := Y,
                       timers := (timers st)(promises st \<mapsto> k) \<rparr>)"
| drops: "effect False st ((delete_completer k st)\<lparr>emitted := X\<rparr>)"

text \<open>
  \<open>safe\<close>: a stored completer belongs to a promise whose timer is still armed under the
  same key and whose callbacks were never invoked; no promise has more than one
  invocation. \<open>live\<close>: a promise without an invocation still has its completer stored.
\<close>

definition safe :: "provider \<Rightarrow> bool" where
  "safe st \<longleftrightarrow>
     (\<forall>k p. completers st k = Some p \<longrightarrow> timers st p = Some k \<and> invocations st p = 0)
     \<and> (\<forall>p k. timers st p = Some k \<longrightarrow> p < promises st)
     \<and> (\<forall>p. invocations st p \<le> 1)
     \<and> (\<forall>p. promises st \<le> p \<longrightarrow> invocations st p = 0)"

definition live :: "provider \<Rightarrow> bool" where
  "live st \<longleftrightarrow>
     (\<forall>p < promises st. invocations st p = 0 \<longrightarrow>
        (\<exists>k. timers st p = Some k \<and> completers st k = Some p))"

text \<open>A call without an entry stays without one, and is never completed.\<close>

definition orphan :: "provider \<Rightarrow> nat \<Rightarrow> bool" where
  "orphan st p \<longleftrightarrow> p < promises st \<and> (\<forall>k. completers st k \<noteq> Some p)"


text \<open>The state of the first implementation as the callers of \<open>send\<close> see it.\<close>

definition as_send :: "provider \<Rightarrow> provider" where
  "as_send st = st\<lparr>settled := map (\<lambda>e. (fst e, send_settle (snd e))) (settled st)\<rparr>"



text \<open>What the promise returned by the first implementation's \<open>send\<close> settled with.\<close>

definition send_outcome :: "provider \<Rightarrow> nat \<Rightarrow> settlement option" where
  "send_outcome st p = map_option send_settle (outcome st p)"

section \<open>Auxiliary facts\<close>

lemma digit_code: "d < 10 \<Longrightarrow> of_char (digit d) = 48 + d"
  unfolding digit_def by (subst of_char_of) simp

lemma digit_inj:
  assumes "a < 10" and "b < 10" and "digit a = digit b"
  shows "a = b"
proof -
  have "48 + a = (of_char (digit a) :: nat)"
    using assms(1) by (simp only: digit_code)
  also have "\<dots> = of_char (digit b)"
    by (simp only: assms(3))
  also have "\<dots> = 48 + b"
    using assms(2) by (simp only: digit_code)
  finally show ?thesis by simp
qed

lemma string_of_nat_nonempty: "string_of_nat n \<noteq> []"
  by (subst string_of_nat.simps) simp

lemma string_of_nat_inj: "string_of_nat n = string_of_nat m \<Longrightarrow> n = m"
proof (induction n arbitrary: m rule: string_of_nat.induct)
  case (1 n)
  show ?case
  proof (cases "n < 10")
    case small: True
    show ?thesis
    proof (cases "m < 10")
      case True
      with small "1.prems" show ?thesis
        by (simp add: string_of_nat.simps [of n] string_of_nat.simps [of m] digit_inj)
    next
      case False
      with small "1.prems" have "[digit n] = string_of_nat (m div 10) @ [digit (m mod 10)]"
        by (simp add: string_of_nat.simps [of n] string_of_nat.simps [of m])
      then show ?thesis
        using string_of_nat_nonempty [of "m div 10"] by simp
    qed
  next
    case big: False
    show ?thesis
    proof (cases "m < 10")
      case True
      with big "1.prems" have "string_of_nat (n div 10) @ [digit (n mod 10)] = [digit m]"
        by (simp add: string_of_nat.simps [of n] string_of_nat.simps [of m])
      then show ?thesis
        using string_of_nat_nonempty [of "n div 10"] by simp
    next
      case False
      with big "1.prems"
      have eq: "string_of_nat (n div 10) @ [digit (n mod 10)]
                = string_of_nat (m div 10) @ [digit (m mod 10)]"
        by (simp add: string_of_nat.simps [of n] string_of_nat.simps [of m])
      then have "string_of_nat (n div 10) = string_of_nat (m div 10)"
        and d: "digit (n mod 10) = digit (m mod 10)"
        by simp_all
      with big "1.IH" have "n div 10 = m div 10" by simp
      moreover from d have "n mod 10 = m mod 10"
        by (simp add: digit_inj)
      ultimately show ?thesis
        by (metis div_mult_mod_eq)
    qed
  qed
qed

lemma string_of_nat_digits: "c \<in> set (string_of_nat n) \<Longrightarrow> of_char c < (58::nat)"
proof (induction n rule: string_of_nat.induct)
  case (1 n)
  show ?case
  proof (cases "n < 10")
    case True
    with "1.prems" show ?thesis
      by (simp add: string_of_nat.simps [of n] digit_code)
  next
    case False
    with "1.prems" have "c \<in> set (string_of_nat (n div 10)) \<or> c = digit (n mod 10)"
      by (auto simp: string_of_nat.simps [of n])
    then show ?thesis
    proof
      assume "c \<in> set (string_of_nat (n div 10))"
      with False "1.IH" show ?thesis by simp
    next
      assume "c = digit (n mod 10)"
      then show ?thesis by (simp add: digit_code)
    qed
  qed
qed

lemma getUniqueId_own: "getUniqueId draw \<notin> set object_prototype_keys"
proof
  assume a: "getUniqueId draw \<in> set object_prototype_keys"
  have "hd (getUniqueId draw) \<in> set (getUniqueId draw)"
    by (simp add: getUniqueId_def string_of_nat_nonempty)
  then have "of_char (hd (getUniqueId draw)) < (58::nat)"
    by (simp add: getUniqueId_def string_of_nat_digits)
  with a show False
    by (auto simp: object_prototype_keys_def)
qed

lemma getUniqueId_inj: "getUniqueId a = getUniqueId b \<longleftrightarrow> a = b"
  by (auto simp: getUniqueId_def dest: string_of_nat_inj)

lemma delete_absent: "completers st k = None \<Longrightarrow> delete_completer k st = st"
  by (simp add: delete_completer_def fun_upd_idem)

lemma dispatch_method_emits:
  "fst (dispatch_method st d) = st\<lparr>emitted := emitted (fst (dispatch_method st d))\<rparr>"
  by (simp add: dispatch_method_def emit_def Let_def)


lemma nullish_iff: "nullish v \<longleftrightarrow> v = JUndefined \<or> v = JNull"
  by (cases v) simp_all

lemma versioned_truthy: "field d ''jsonrpc'' = JStr JSON_RPC_VERSION \<Longrightarrow> truthy d"
  by (cases d) simp_all

lemma effect_unchanged: "effect b st st"
  using quiet [where b = b and st = st and X = "emitted st"] by simp

lemma handleParentWindowMessage_effect:
  "effect (regular st (Message d)) st (fst (handleParentWindowMessage st d))"
proof (cases "truthy d \<and> field d ''jsonrpc'' = JStr JSON_RPC_VERSION")
  case False
  then have "fst (handleParentWindowMessage st d) = st"
    by (auto simp: handleParentWindowMessage_def)
  then show ?thesis by (simp add: effect_unchanged)
next
  case versioned: True
  let ?b = "regular st (Message d)"
  have after: "effect ?b st (fst (dispatch_method st1 d))"
    if "effect ?b st (st1\<lparr>emitted := emitted (fst (dispatch_method st1 d))\<rparr>)" for st1
    using that dispatch_method_emits [of st1 d] by simp
  show ?thesis
  proof (cases "nullish (field d ''id'') \<or> ToString (field d ''id'') = None
      \<or> (\<exists>k. ToString (field d ''id'') = Some k \<and> completers st k = None)")
    case True
    then have "complete_pending st d = (st, None) \<or> complete_pending st d = (st, Some TypeError)"
      by (auto simp: complete_pending_def Let_def lookup_completer_def nullish_iff delete_absent)
    with versioned have "fst (handleParentWindowMessage st d) = st
        \<or> fst (handleParentWindowMessage st d) = fst (dispatch_method st d)"
      by (auto simp: handleParentWindowMessage_def)
    then show ?thesis
      using after [of st] quiet [where b = ?b and st = st] by (auto simp: effect_unchanged)
  next
    case False
    then obtain k c where key: "ToString (field d ''id'') = Some k"
      and entry: "completers st k = Some c" and ident: "\<not> nullish (field d ''id'')"
      by auto
    show ?thesis
    proof (cases "has_field d ''error'' \<or> has_field d ''result''")
      case True
      let ?st1 = "delete_completer k (invoke c (Resolve d) st)"
      from True key entry ident have "complete_pending st d = (?st1, None)"
        by (auto simp: complete_pending_def Let_def lookup_completer_def nullish_iff)
      with versioned have "fst (handleParentWindowMessage st d) = fst (dispatch_method ?st1 d)"
        by (simp add: handleParentWindowMessage_def)
      then show ?thesis
        using after [of ?st1] completes [OF entry, where b = ?b and s = "Resolve d"] by simp
    next
      case False
      let ?st1 = "delete_completer k st"
      from False key entry ident have "complete_pending st d = (?st1, None)"
        by (auto simp: complete_pending_def Let_def lookup_completer_def nullish_iff)
      with versioned have "fst (handleParentWindowMessage st d) = fst (dispatch_method ?st1 d)"
        by (simp add: handleParentWindowMessage_def)
      moreover from False key entry ident versioned have "\<not> ?b"
        by simp
      ultimately show ?thesis
        using after [of ?st1] drops [where st = st and k = k] by simp
    qed
  qed
qed

lemma handleJsonrpcMessage_effect:
  "effect (regular st (Message d)) st (fst (handleJsonrpcMessage st d))"
proof (cases "truthy d \<and> field d ''jsonrpc'' = JStr JSON_RPC_VERSION")
  case False
  then have "fst (handleJsonrpcMessage st d) = st"
    by (auto simp: handleJsonrpcMessage_def)
  then show ?thesis by (simp add: effect_unchanged)
next
  case versioned: True
  let ?b = "regular st (Message d)"
  have after: "effect ?b st (fst (dispatch_method st1 d))"
    if "effect ?b st (st1\<lparr>emitted := emitted (fst (dispatch_method st1 d))\<rparr>)" for st1
    using that dispatch_method_emits [of st1 d] by simp
  show ?thesis
  proof (cases "nullish (field d ''id'') \<or> ToString (field d ''id'') = None
      \<or> (\<exists>k. ToString (field d ''id'') = Some k \<and> completers st k = None)")
    case True
    then have "complete_pending2 st d = (st, None) \<or> complete_pending2 st d = (st, Some TypeError)"
      by (auto simp: complete_pending2_def Let_def lookup_completer_def nullish_iff delete_absent
          split: if_splits)
    with versioned have "fst (handleJsonrpcMessage st d) = st
        \<or> fst (handleJsonrpcMessage st d) = fst (dispatch_method st d)"
      by (auto simp: handleJsonrpcMessage_def)
    then show ?thesis
      using after [of st] quiet [where b = ?b and st = st] by (auto simp: effect_unchanged)
  next
    case False
    then obtain k c where key: "ToString (field d ''id'') = Some k"
      and entry: "completers st k = Some c" and ident: "\<not> nullish (field d ''id'')"
      by auto
    consider (thrown) "has_field d ''error''"
        "nullish (field d ''error'') \<or> new_Error (field (field d ''error'') ''message'') = None"
      | (rejected) e where "has_field d ''error''" "\<not> nullish (field d ''error'')"
        "new_Error (field (field d ''error'') ''message'') = Some e"
      | (resolved) "\<not> has_field d ''error''" "has_field d ''result''"
      | (neither) "\<not> has_field d ''error''" "\<not> has_field d ''result''"
      by (cases "new_Error (field (field d ''error'') ''message'')") blast+
    then show ?thesis
    proof cases
      case thrown
      with key entry ident have "complete_pending2 st d = (st, Some TypeError)"
        by (auto simp: complete_pending2_def Let_def lookup_completer_def nullish_iff)
      with versioned have "fst (handleJsonrpcMessage st d) = st"
        by (simp add: handleJsonrpcMessage_def)
      then show ?thesis by (simp add: effect_unchanged)
    next
      case rejected
      let ?st1 = "delete_completer k (invoke c (Reject e) st)"
      from rejected key entry ident have "complete_pending2 st d = (?st1, None)"
        by (auto simp: complete_pending2_def Let_def lookup_completer_def nullish_iff)
      with versioned have "fst (handleJsonrpcMessage st d) = fst (dispatch_method ?st1 d)"
        by (simp add: handleJsonrpcMessage_def)
      then show ?thesis
        using after [of ?st1] completes [OF entry, where b = ?b and s = "Reject e"] by simp
    next
      case resolved
      let ?s = "Resolve (field d ''result'')"
      let ?st1 = "delete_completer k (invoke c ?s st)"
      from resolved key entry ident have "complete_pending2 st d = (?st1, None)"
        by (auto simp: complete_pending2_def Let_def lookup_completer_def nullish_iff)
      with versioned have "fst (handleJsonrpcMessage st d) = fst (dispatch_method ?st1 d)"
        by (simp add: handleJsonrpcMessage_def)
      then show ?thesis
        using after [of ?st1] completes [OF entry, where b = ?b and s = ?s] by simp
    next
      case neither
      let ?st1 = "delete_completer k st"
      from neither key entry ident have "complete_pending2 st d = (?st1, None)"
        by (auto simp: complete_pending2_def Let_def lookup_completer_def nullish_iff)
      with versioned have "fst (handleJsonrpcMessage st d) = fst (dispatch_method ?st1 d)"
        by (simp add: handleJsonrpcMessage_def)
      moreover from neither key entry ident versioned have "\<not> ?b"
        by simp
      ultimately show ?thesis
        using after [of ?st1] drops [where st = st and k = k] by simp
    qed
  qed
qed

lemma register_effect:
  "effect (completers st k = None) st
     (st\<lparr> promises := Suc (promises st), completers := (completers st)(k \<mapsto> promises st),
          posted := Y, timers := (timers st)(promises st \<mapsto> k) \<rparr>)"
proof (cases "completers st k = None")
  case True
  then show ?thesis by (simp add: registers)
next
  case False
  then have "(completers st k = None) = False" by simp
  then show ?thesis by (simp only: overwrites)
qed

lemma send_effect: "effect (regular st (Send draw method params)) st (fst (send draw method params st))"
  using register_effect [of st "getUniqueId draw"]
  by (simp add: send_def execute_def Let_def effect_unchanged)

lemma send2_effect: "effect (regular st (Send draw method params)) st (fst (send2 draw method params st))"
  using register_effect [of st "getUniqueId draw"]
  by (simp add: send2_def Let_def effect_unchanged)

lemma timeout_callback_effect:
  assumes "timers st p = Some k"
  shows "effect b st (fst (timeout_callback k (st\<lparr>timers := (timers st)(p := None)\<rparr>)))"
proof (cases "completers st k")
  case None
  then show ?thesis
    using expires_idle [OF assms None, of b]
    by (simp add: timeout_callback_def lookup_completer_def)
next
  case (Some c)
  then show ?thesis
    using expires [OF assms Some, where b = b
        and s = "Reject (timeout_error k (timeoutMilliseconds st))"]
    by (simp add: timeout_callback_def lookup_completer_def)
qed

lemma timeout_callback2_effect:
  assumes "timers st p = Some k"
  shows "effect b st (fst (timeout_callback2 k (st\<lparr>timers := (timers st)(p := None)\<rparr>)))"
proof (cases "completers st k")
  case None
  then show ?thesis
    using expires_idle [OF assms None, of b]
    by (simp add: timeout_callback2_def lookup_completer_def)
next
  case (Some c)
  then show ?thesis
    using expires [OF assms Some, where b = b
        and s = "Reject (timeout_error2 k (timeoutMilliseconds st))"]
    by (simp add: timeout_callback2_def lookup_completer_def)
qed

lemma step_effect: "effect (regular st e) st (step st e)"
proof (cases e)
  case (Send draw name args)
  then show ?thesis using send_effect by simp
next
  case (Message d)
  then show ?thesis using handleParentWindowMessage_effect by simp
next
  case (Timeout p)
  then show ?thesis
    by (cases "timers st p") (simp_all add: effect_unchanged timeout_callback_effect)
qed

lemma step2_effect: "effect (regular st e) st (step2 st e)"
proof (cases e)
  case (Send draw name args)
  then show ?thesis using send2_effect by simp
next
  case (Message d)
  then show ?thesis using handleJsonrpcMessage_effect by simp
next
  case (Timeout p)
  then show ?thesis
    by (cases "timers st p") (simp_all add: effect_unchanged timeout_callback2_effect)
qed

lemma invocations_invoke [simp]:
  "invocations (invoke c s st) p = invocations st p + (if c = p then 1 else 0)"
  by (simp add: invocations_def invoke_def)

lemma invocations_delete [simp]: "invocations (delete_completer k st) p = invocations st p"
  by (simp add: invocations_def delete_completer_def)

lemma invocations_updates [simp]:
  "invocations (st\<lparr>emitted := X\<rparr>) p = invocations st p"
  "invocations (st\<lparr>timers := T\<rparr>) p = invocations st p"
  "invocations (st\<lparr>posted := Y\<rparr>) p = invocations st p"
  "invocations (st\<lparr>completers := C\<rparr>) p = invocations st p"
  "invocations (st\<lparr>promises := n\<rparr>) p = invocations st p"
  by (simp_all add: invocations_def)

lemma fields_invoke [simp]:
  "completers (invoke c s st) = completers st"
  "timers (invoke c s st) = timers st"
  "promises (invoke c s st) = promises st"
  "posted (invoke c s st) = posted st"
  "emitted (invoke c s st) = emitted st"
  by (simp_all add: invoke_def)

lemma fields_delete [simp]:
  "completers (delete_completer k st) = (completers st)(k := None)"
  "timers (delete_completer k st) = timers st"
  "promises (delete_completer k st) = promises st"
  "posted (delete_completer k st) = posted st"
  "emitted (delete_completer k st) = emitted st"
  "settled (delete_completer k st) = settled st"
  by (simp_all add: delete_completer_def)

lemma safeD:
  assumes "safe st"
  shows "completers st k = Some p \<Longrightarrow> timers st p = Some k"
    and "completers st k = Some p \<Longrightarrow> invocations st p = 0"
    and "timers st p = Some k \<Longrightarrow> p < promises st"
    and "invocations st p \<le> 1"
    and "promises st \<le> p \<Longrightarrow> invocations st p = 0"
  using assms unfolding safe_def by blast+

lemma safeI:
  assumes "\<And>k p. completers st k = Some p \<Longrightarrow> timers st p = Some k"
    and "\<And>k p. completers st k = Some p \<Longrightarrow> invocations st p = 0"
    and "\<And>p k. timers st p = Some k \<Longrightarrow> p < promises st"
    and "\<And>p. invocations st p \<le> 1"
    and "\<And>p. promises st \<le> p \<Longrightarrow> invocations st p = 0"
  shows "safe st"
  using assms unfolding safe_def by blast

lemma safe_completion:
  assumes "safe st" and entry: "completers st k = Some c"
    and same: "timers st' = timers st \<or> (\<exists>p. timers st p = Some k \<and> timers st' = (timers st)(p := None))"
    and st': "completers st' = (completers st)(k := None)" "promises st' = promises st"
      "\<And>p. invocations st' p = invocations st p + (if c = p then 1 else 0)"
  shows "safe st'"
proof (rule safeI)
  note S = safeD [OF assms(1)]
  have c: "timers st c = Some k" "invocations st c = 0" "c < promises st"
    using entry S(1) S(2) S(3) by blast+
  fix k' p'
  assume e: "completers st' k' = Some p'"
  then have e': "k' \<noteq> k" "completers st k' = Some p'"
    by (auto simp: st' split: if_splits)
  then have t: "timers st p' = Some k'" and "invocations st p' = 0"
    using S(1) S(2) by blast+
  with c e' have "p' \<noteq> c" by auto
  with \<open>invocations st p' = 0\<close> show "invocations st' p' = 0" by (simp add: st')
  from same t e' show "timers st' p' = Some k'" by auto
next
  note S = safeD [OF assms(1)]
  fix p k'
  assume "timers st' p = Some k'"
  with same have "timers st p = Some k'" by (auto split: if_splits)
  then show "p < promises st'" using S(3) by (simp add: st')
next
  note S = safeD [OF assms(1)]
  fix p
  have "invocations st c = 0" using entry S(2) by blast
  then show "invocations st' p \<le> 1" using S(4) [of p] by (auto simp: st')
next
  note S = safeD [OF assms(1)]
  fix p
  assume "promises st' \<le> p"
  moreover have "c < promises st" using entry S(1) S(3) by blast
  ultimately show "invocations st' p = 0" using S(5) [of p] by (simp add: st')
qed

lemma safe_registration:
  assumes "safe st"
    and st': "completers st' = (completers st)(k \<mapsto> promises st)"
      "promises st' = Suc (promises st)"
      "timers st' = (timers st)(promises st \<mapsto> k)"
      "\<And>p. invocations st' p = invocations st p"
  shows "safe st'"
proof (rule safeI)
  note S = safeD [OF assms(1)]
  fix k' p'
  assume e: "completers st' k' = Some p'"
  show "invocations st' p' = 0"
  proof (cases "k' = k")
    case True
    with e have "p' = promises st" by (simp add: st')
    then show ?thesis using S(5) [of p'] by (simp add: st')
  next
    case False
    with e have "completers st k' = Some p'" by (simp add: st')
    then show ?thesis using S(2) by (simp add: st')
  qed
  show "timers st' p' = Some k'"
  proof (cases "k' = k")
    case True
    with e have "p' = promises st" by (simp add: st')
    with True show ?thesis by (simp add: st')
  next
    case False
    with e have old: "completers st k' = Some p'" by (simp add: st')
    then have "timers st p' = Some k'" using S(1) by blast
    moreover from this have "p' \<noteq> promises st" using S(3) [of p' k'] by simp
    ultimately show ?thesis by (simp add: st')
  qed
next
  note S = safeD [OF assms(1)]
  fix p k'
  assume "timers st' p = Some k'"
  then show "p < promises st'"
    using S(3) [of p k'] by (auto simp: st' split: if_splits)
next
  fix p
  show "invocations st' p \<le> 1" using safeD(4) [OF assms(1), of p] by (simp add: st')
next
  fix p
  assume "promises st' \<le> p"
  then show "invocations st' p = 0" using safeD(5) [OF assms(1), of p] by (simp add: st')
qed

lemma safe_shrink:
  assumes "safe st"
    and st': "completers st' = (completers st)(k := None)" "promises st' = promises st"
      "timers st' = timers st" "\<And>p. invocations st' p = invocations st p"
  shows "safe st'"
proof (rule safeI)
  note S = safeD [OF assms(1)]
  fix k' p'
  assume "completers st' k' = Some p'"
  then have "completers st k' = Some p'" by (auto simp: st' split: if_splits)
  then show "invocations st' p' = 0" "timers st' p' = Some k'"
    using S(1) S(2) by (simp_all add: st')
next
  fix p k'
  assume "timers st' p = Some k'"
  then show "p < promises st'" using safeD(3) [OF assms(1), of p k'] by (simp add: st')
next
  fix p
  show "invocations st' p \<le> 1" using safeD(4) [OF assms(1), of p] by (simp add: st')
next
  fix p
  assume "promises st' \<le> p"
  then show "invocations st' p = 0" using safeD(5) [OF assms(1), of p] by (simp add: st')
qed

lemma safe_idle_expiry:
  assumes "safe st" and "timers st p = Some k" and "completers st k = None"
  shows "safe (st\<lparr>timers := (timers st)(p := None)\<rparr>)"
proof (rule safeI)
  note S = safeD [OF assms(1)]
  fix k' p'
  assume "completers (st\<lparr>timers := (timers st)(p := None)\<rparr>) k' = Some p'"
  then have e: "completers st k' = Some p'" by simp
  then have t: "timers st p' = Some k'" using S(1) by blast
  with e assms(2,3) have "p' \<noteq> p" by auto
  with t show "timers (st\<lparr>timers := (timers st)(p := None)\<rparr>) p' = Some k'" by simp
  from e show "invocations (st\<lparr>timers := (timers st)(p := None)\<rparr>) p' = 0"
    using S(2) by simp
next
  fix q k'
  assume "timers (st\<lparr>timers := (timers st)(p := None)\<rparr>) q = Some k'"
  then show "q < promises (st\<lparr>timers := (timers st)(p := None)\<rparr>)"
    using safeD(3) [OF assms(1), of q k'] by (auto split: if_splits)
next
  fix q
  show "invocations (st\<lparr>timers := (timers st)(p := None)\<rparr>) q \<le> 1"
    using safeD(4) [OF assms(1), of q] by simp
next
  fix q
  assume "promises (st\<lparr>timers := (timers st)(p := None)\<rparr>) \<le> q"
  then show "invocations (st\<lparr>timers := (timers st)(p := None)\<rparr>) q = 0"
    using safeD(5) [OF assms(1), of q] by simp
qed

lemma safe_effect:
  assumes "effect b st st'" and "safe st"
  shows "safe st'"
  using assms(1)
proof cases
  case (quiet X)
  with assms(2) show ?thesis by (simp add: safe_def)
next
  case (completes k c X s)
  show ?thesis
    by (rule safe_completion [OF assms(2) completes(2)]) (simp_all add: completes(1))
next
  case (expires_idle p k)
  with assms(2) show ?thesis by (simp add: safe_idle_expiry)
next
  case (expires p k c s)
  show ?thesis
    by (rule safe_completion [OF assms(2) expires(3)])
      (use expires(2) in \<open>auto simp: expires(1)\<close>)
next
  case (registers k Y)
  show ?thesis
    by (rule safe_registration [OF assms(2), of _ k]) (simp_all add: registers(1))
next
  case (overwrites k Y)
  show ?thesis
    by (rule safe_registration [OF assms(2), of _ k]) (simp_all add: overwrites(2))
next
  case (drops X k)
  show ?thesis
    by (rule safe_shrink [OF assms(2), of _ k]) (simp_all add: drops(2))
qed

lemma liveD:
  assumes "live st" and "p < promises st" and "invocations st p = 0"
  obtains k where "timers st p = Some k" and "completers st k = Some p"
  using assms unfolding live_def by blast

lemma live_effect:
  assumes "effect True st st'" and "safe st" and "live st"
  shows "live st'"
  using assms(1)
proof cases
  case (quiet X)
  with assms(3) show ?thesis by (simp add: live_def)
next
  case (completes k c X s)
  show ?thesis
    unfolding live_def
  proof (intro allI impI)
    fix p
    assume "p < promises st'" and "invocations st' p = 0"
    then have p: "p < promises st" "invocations st p = 0" "p \<noteq> c"
      by (auto simp: completes(1) split: if_splits)
    then obtain k' where k': "timers st p = Some k'" "completers st k' = Some p"
      using assms(3) by (auto elim: liveD)
    with completes(2) p have "k' \<noteq> k" by auto
    with k' show "\<exists>k. timers st' p = Some k \<and> completers st' k = Some p"
      by (simp add: completes(1))
  qed
next
  case (expires_idle p0 k)
  show ?thesis
    unfolding live_def
  proof (intro allI impI)
    fix p
    assume "p < promises st'" and "invocations st' p = 0"
    then have p: "p < promises st" "invocations st p = 0"
      by (auto simp: expires_idle(1))
    then obtain k' where k': "timers st p = Some k'" "completers st k' = Some p"
      using assms(3) by (auto elim: liveD)
    with expires_idle(2,3) have "p \<noteq> p0" by auto
    with k' show "\<exists>k. timers st' p = Some k \<and> completers st' k = Some p"
      by (simp add: expires_idle(1))
  qed
next
  case (expires p0 k c s)
  show ?thesis
    unfolding live_def
  proof (intro allI impI)
    fix p
    assume "p < promises st'" and "invocations st' p = 0"
    then have p: "p < promises st" "invocations st p = 0" "p \<noteq> c"
      by (auto simp: expires(1) split: if_splits)
    then obtain k' where k': "timers st p = Some k'" "completers st k' = Some p"
      using assms(3) by (auto elim: liveD)
    with expires(3) p have "k' \<noteq> k" by auto
    with k' expires(2) have "p \<noteq> p0" by auto
    with k' \<open>k' \<noteq> k\<close> show "\<exists>k. timers st' p = Some k \<and> completers st' k = Some p"
      by (simp add: expires(1))
  qed
next
  case (registers k Y)
  show ?thesis
    unfolding live_def
  proof (intro allI impI)
    fix p
    assume less: "p < promises st'" and "invocations st' p = 0"
    then have inv: "invocations st p = 0"
      by (simp add: registers(1))
    show "\<exists>k. timers st' p = Some k \<and> completers st' k = Some p"
    proof (cases "p = promises st")
      case True
      then show ?thesis by (simp add: registers(1))
    next
      case False
      with less have "p < promises st" by (simp add: registers(1))
      with inv obtain k' where k': "timers st p = Some k'" "completers st k' = Some p"
        using assms(3) by (auto elim: liveD)
      with registers(2) have "k' \<noteq> k" by auto
      with k' False show ?thesis by (simp add: registers(1))
    qed
  qed
next
  case (overwrites k Y)
  then show ?thesis by simp
next
  case (drops X k)
  then show ?thesis by simp
qed

lemma safe_new: "safe (new_provider origin ms n)"
  by (simp add: safe_def new_provider_def invocations_def)

lemma live_new: "live (new_provider origin ms n)"
  by (simp add: live_def new_provider_def)

lemma safe_run: "safe st \<Longrightarrow> safe (run st evs)"
  unfolding run_def
  by (induction evs arbitrary: st) (auto intro: safe_effect step_effect)

lemma safe_run2: "safe st \<Longrightarrow> safe (run2 st evs)"
  unfolding run2_def
  by (induction evs arbitrary: st) (auto intro: safe_effect step2_effect)

lemma live_run: "regular_run step st evs \<Longrightarrow> safe st \<Longrightarrow> live st \<Longrightarrow> live (run st evs)"
  unfolding run_def
proof (induction evs arbitrary: st)
  case Nil
  then show ?case by simp
next
  case (Cons e evs)
  from Cons.prems have "effect True st (step st e)"
    using step_effect [of st e] by simp
  with Cons.prems have "safe (step st e)" "live (step st e)"
    by (auto intro: safe_effect live_effect)
  with Cons show ?case by simp
qed

lemma live_run2: "regular_run step2 st evs \<Longrightarrow> safe st \<Longrightarrow> live st \<Longrightarrow> live (run2 st evs)"
  unfolding run2_def
proof (induction evs arbitrary: st)
  case Nil
  then show ?case by simp
next
  case (Cons e evs)
  from Cons.prems have "effect True st (step2 st e)"
    using step2_effect [of st e] by simp
  with Cons.prems have "safe (step2 st e)" "live (step2 st e)"
    by (auto intro: safe_effect live_effect)
  with Cons show ?case by simp
qed

lemma effect_config:
  assumes "effect b st st'"
  shows "nested st' = nested st \<and> timeoutMilliseconds st' = timeoutMilliseconds st
         \<and> targetOrigin st' = targetOrigin st"
  using assms by cases (simp_all add: delete_completer_def invoke_def)

lemma run_config:
  "nested (run st evs) = nested st \<and> timeoutMilliseconds (run st evs) = timeoutMilliseconds st"
  unfolding run_def
  by (induction evs arbitrary: st) (use effect_config step_effect in \<open>fastforce+\<close>)

lemma run2_config:
  "nested (run2 st evs) = nested st \<and> timeoutMilliseconds (run2 st evs) = timeoutMilliseconds st"
  unfolding run2_def
  by (induction evs arbitrary: st) (use effect_config step2_effect in \<open>fastforce+\<close>)

lemma orphan_effect:
  assumes "effect b st st'" and "orphan st p"
  shows "orphan st' p \<and> invocations st' p = invocations st p"
  using assms unfolding orphan_def
  by cases (auto split: if_splits)

lemma orphan_run: "orphan st p \<Longrightarrow> invocations (run st evs) p = invocations st p"
  unfolding run_def
proof (induction evs arbitrary: st)
  case Nil
  show ?case by simp
next
  case (Cons e evs)
  have "orphan (step st e) p \<and> invocations (step st e) p = invocations st p"
    using orphan_effect [OF step_effect Cons.prems] .
  with Cons.IH [of "step st e"] show ?case by simp
qed

lemma orphan_run2: "orphan st p \<Longrightarrow> invocations (run2 st evs) p = invocations st p"
  unfolding run2_def
proof (induction evs arbitrary: st)
  case Nil
  show ?case by simp
next
  case (Cons e evs)
  have "orphan (step2 st e) p \<and> invocations (step2 st e) p = invocations st p"
    using orphan_effect [OF step2_effect Cons.prems] .
  with Cons.IH [of "step2 st e"] show ?case by simp
qed

lemma effect_mono:
  assumes "effect b st st'"
  shows "invocations st p \<le> invocations st' p"
  using assms by cases simp_all

lemma run_mono: "invocations st p \<le> invocations (run st evs) p"
  unfolding run_def
proof (induction evs arbitrary: st)
  case Nil
  show ?case by simp
next
  case (Cons e evs)
  have "invocations st p \<le> invocations (step st e) p"
    using effect_mono step_effect by blast
  also have "\<dots> \<le> invocations (foldl step (step st e) evs) p"
    by (rule Cons.IH)
  finally show ?case by simp
qed

lemma run2_mono: "invocations st p \<le> invocations (run2 st evs) p"
  unfolding run2_def
proof (induction evs arbitrary: st)
  case Nil
  show ?case by simp
next
  case (Cons e evs)
  have "invocations st p \<le> invocations (step2 st e) p"
    using effect_mono step2_effect by blast
  also have "\<dots> \<le> invocations (foldl step2 (step2 st e) evs) p"
    by (rule Cons.IH)
  finally show ?case by simp
qed

lemma getUniqueId_7: "getUniqueId 7 = ''7''"
  by code_simp


lemma send2_send: "send2 draw method params st = send draw method params st"
  by (simp add: send2_def send_def execute_def)

lemma send_registers:
  assumes "nested st"
  shows "fst (send draw method params st) =
     st\<lparr> promises := Suc (promises st),
         completers := (completers st)(getUniqueId draw \<mapsto> promises st),
         posted := posted st @ [(request_payload (getUniqueId draw) method params, targetOrigin st)],
         timers := (timers st)(promises st \<mapsto> getUniqueId draw) \<rparr>"
  using assms by (simp add: send_def execute_def isEmbeddedInIFrame_def Let_def)

lemma pending_effect:
  assumes "effect True st st'" and "p < promises st"
    and "invocations st p = 0 \<longrightarrow> timers st p = Some k \<and> completers st k = Some p"
  shows "p < promises st' \<and>
         (invocations st' p = 0 \<longrightarrow> timers st' p = Some k \<and> completers st' k = Some p)"
  using assms(1)
proof cases
  case (quiet X)
  with assms(2,3) show ?thesis by simp
next
  case (completes k0 c X s)
  with assms(2,3) show ?thesis by (auto split: if_splits)
next
  case (expires_idle p0 k0)
  with assms(2,3) show ?thesis by (auto split: if_splits)
next
  case (expires p0 k0 c s)
  with assms(2,3) show ?thesis by (auto split: if_splits)
next
  case (registers k0 Y)
  with assms(2,3) show ?thesis by (auto split: if_splits)
next
  case (overwrites k0 Y)
  then show ?thesis by simp
next
  case (drops X k0)
  then show ?thesis by simp
qed

lemma pending_fold:
  assumes eff: "\<And>st e. effect (regular st e) st (S st e)"
  shows "regular_run S st evs \<Longrightarrow> p < promises st \<Longrightarrow>
    (invocations st p = 0 \<longrightarrow> timers st p = Some k \<and> completers st k = Some p) \<Longrightarrow>
    invocations (foldl S st evs) p = 0 \<longrightarrow>
      timers (foldl S st evs) p = Some k \<and> completers (foldl S st evs) k = Some p"
proof (induction evs arbitrary: st)
  case Nil
  then show ?case by simp
next
  case (Cons e evs)
  from Cons.prems(1) have "effect True st (S st e)"
    using eff [of st e] by simp
  from pending_effect [OF this Cons.prems(2,3)] Cons.prems(1) Cons.IH [of "S st e"]
  show ?case by simp
qed

lemma shared_timer_effect:
  assumes "effect f st st'" and "a < promises st" and "b < promises st"
    and "completers st k = Some b \<longrightarrow> timers st a = Some k"
  shows "a < promises st' \<and> b < promises st' \<and>
         (completers st' k = Some b \<longrightarrow> timers st' a = Some k)"
  using assms(1)
proof cases
  case (quiet X)
  with assms(2,3,4) show ?thesis by simp
next
  case (completes k0 c X s)
  with assms(2,3,4) show ?thesis by (auto split: if_splits)
next
  case (expires_idle p0 k0)
  with assms(2,3,4) show ?thesis by (auto split: if_splits)
next
  case (expires p0 k0 c s)
  with assms(2,3,4) show ?thesis by (auto split: if_splits)
next
  case (registers k0 Y)
  with assms(2,3,4) show ?thesis by (auto split: if_splits)
next
  case (overwrites k0 Y)
  with assms(2,3,4) show ?thesis by (auto split: if_splits)
next
  case (drops X k0)
  with assms(2,3,4) show ?thesis by (auto split: if_splits)
qed

lemma shared_timer_fold:
  assumes eff: "\<And>st e. effect (regular st e) st (S st e)"
  shows "a < promises st \<Longrightarrow> b < promises st \<Longrightarrow>
    (completers st k = Some b \<longrightarrow> timers st a = Some k) \<Longrightarrow>
    completers (foldl S st evs) k = Some b \<longrightarrow> timers (foldl S st evs) a = Some k"
proof (induction evs arbitrary: st)
  case Nil
  then show ?case by simp
next
  case (Cons e evs)
  from shared_timer_effect [OF eff [of st e] Cons.prems] Cons.IH [of "S st e"]
  show ?case by simp
qed

lemma as_send_fields [simp]:
  "completers (as_send st) = completers st"
  "timers (as_send st) = timers st"
  "promises (as_send st) = promises st"
  "posted (as_send st) = posted st"
  "emitted (as_send st) = emitted st"
  "nested (as_send st) = nested st"
  "targetOrigin (as_send st) = targetOrigin st"
  "timeoutMilliseconds (as_send st) = timeoutMilliseconds st"
  by (simp_all add: as_send_def)












lemma handler_settled:
  "settled (fst (handleParentWindowMessage st d)) =
     (if truthy d \<and> field d ''jsonrpc'' = JStr JSON_RPC_VERSION
      then settled (fst (complete_pending st d)) else settled st)"
proof (cases "truthy d \<and> field d ''jsonrpc'' = JStr JSON_RPC_VERSION")
  case False
  then show ?thesis by (auto simp: handleParentWindowMessage_def)
next
  case True
  obtain st1 x where cp: "complete_pending st d = (st1, x)"
    by (cases "complete_pending st d")
  have "settled (fst (dispatch_method st1 d)) = settled st1"
    by (subst dispatch_method_emits) simp
  with True cp show ?thesis
    by (cases x) (simp_all add: handleParentWindowMessage_def)
qed

lemmas call_eval =
  new_provider_def send_def execute_def send2_def isEmbeddedInIFrame_def Let_def
  request_payload_def JSON_RPC_VERSION_def getUniqueId_7

lemmas handler_eval =
  handleParentWindowMessage_def handleJsonrpcMessage_def complete_pending_def
  complete_pending2_def dispatch_method_def lookup_completer_def invoke_def
  delete_completer_def emit_def object_prototype_keys_def


lemma digit_values:
  "digit 0 = CHR ''0''" "digit 1 = CHR ''1''" "digit 2 = CHR ''2''" "digit 3 = CHR ''3''"
  "digit 4 = CHR ''4''" "digit 5 = CHR ''5''" "digit 6 = CHR ''6''" "digit 7 = CHR ''7''"
  "digit 8 = CHR ''8''" "digit 9 = CHR ''9''"
  by code_simp+

lemma Number_toString_60000: "Number_toString (Number 60000) = ''60000''"
proof -
  have "the_int (Number 60000) = 60000"
    by (simp add: Number_inverse)
  then show ?thesis
    by (simp add: Number_toString_def string_of_nat.simps digit_values)
qed


section \<open>Exactly-once completion\<close>

text \<open>
  C1 (as amended). In every run of either implementation in which each call draws an
  identifier that is not in the pending-call table and each versioned message naming a
  pending identifier carries a \<open>result\<close> or an \<open>error\<close>, every issued call \<open>p\<close> is in
  one of two conditions: a callback of its completer was invoked exactly once and no
  entry of the table holds its completer any more, or no callback was invoked yet and
  its completer is still stored under the identifier its armed timer holds. Hence once
  its timer has fired, exactly one invocation has happened, whichever of the matching
  response and the timer acted first. (The handlers invoke the callback and delete the
  entry in this order inside one run-to-completion callback; the entry is gone when that
  callback returns.)
\<close>

theorem completion_exactly_once:
  assumes R: "(R = run \<and> S = step) \<or> (R = run2 \<and> S = step2)"
    and reg: "regular_run S (new_provider origin ms n) evs"
    and st: "st = R (new_provider origin ms n) evs"
    and p: "p < promises st"
  shows "((invocations st p = 1 \<and> (\<forall>k. completers st k \<noteq> Some p))
          \<or> (invocations st p = 0 \<and> (\<exists>k. timers st p = Some k \<and> completers st k = Some p)))
         \<and> (timers st p = None \<longrightarrow> invocations st p = 1)"
proof -
  from R st have safe: "safe st"
    using safe_run [OF safe_new] safe_run2 [OF safe_new] by auto
  from R reg st have live: "live st"
    using live_run [OF _ safe_new live_new] live_run2 [OF _ safe_new live_new] by auto
  note S = safeD [OF safe]
  show ?thesis
  proof (cases "invocations st p = 0")
    case True
    with live p obtain k where "timers st p = Some k" "completers st k = Some p"
      by (auto elim: liveD)
    with True show ?thesis by auto
  next
    case False
    with S(4) [of p] have one: "invocations st p = 1" by simp
    then have "completers st k \<noteq> Some p" for k
      using S(2) [of k p] by auto
    with one show ?thesis by simp
  qed
qed

text \<open>The hypotheses of C1 hold on a call answered by a result before its timer fires.\<close>

theorem completion_exactly_once_witness:
  "invocations (run (new_provider ''*'' (Number 60000) True)
     [Send 7 ''eth_sign'' (JArr [JStr ''hello'', JStr ''world'']),
      Message (JObj [(''jsonrpc'', JStr ''2.0''), (''id'', JStr ''7''), (''result'', JStr ''0x0000'')]),
      Timeout 0]) 0 = 1"
proof -
  let ?evs = "[Send 7 ''eth_sign'' (JArr [JStr ''hello'', JStr ''world'']),
      Message (JObj [(''jsonrpc'', JStr ''2.0''), (''id'', JStr ''7''), (''result'', JStr ''0x0000'')]),
      Timeout 0]"
  let ?s0 = "new_provider ''*'' (Number 60000) True"
  have reg: "regular_run step ?s0 ?evs"
    by (simp add: new_provider_def send_def execute_def isEmbeddedInIFrame_def Let_def
        getUniqueId_7 handleParentWindowMessage_def complete_pending_def dispatch_method_def
        lookup_completer_def invoke_def delete_completer_def JSON_RPC_VERSION_def)
  have fired: "promises (run ?s0 ?evs) = 1 \<and> timers (run ?s0 ?evs) 0 = None"
    by (simp add: run_def new_provider_def send_def execute_def isEmbeddedInIFrame_def Let_def
        getUniqueId_7 handleParentWindowMessage_def complete_pending_def dispatch_method_def
        lookup_completer_def invoke_def delete_completer_def JSON_RPC_VERSION_def
        timeout_callback_def object_prototype_keys_def)
  from completion_exactly_once [OF disjI1 [OF conjI [OF refl refl]] reg refl, of 0] fired
  show ?thesis by simp
qed

text \<open>
  C1 as stated, for every call, fails: when two calls draw the same identifier, no
  callback of the first call is ever invoked, even after both timers have fired.
\<close>

theorem colliding_call_never_completed:
  "invocations (run (new_provider ''*'' (Number 60000) True)
      [Send 7 ''eth_accounts'' (JArr []), Send 7 ''eth_sign'' (JArr []),
       Timeout 0, Timeout 1]) 0 = 0
   \<and> invocations (run2 (new_provider ''*'' (Number 60000) True)
      [Send 7 ''eth_accounts'' (JArr []), Send 7 ''eth_sign'' (JArr []),
       Timeout 0, Timeout 1]) 0 = 0"
  by (simp add: run_def run2_def new_provider_def send_def execute_def send2_def
      isEmbeddedInIFrame_def Let_def getUniqueId_7 timeout_callback_def timeout_callback2_def
      lookup_completer_def invoke_def delete_completer_def invocations_def)

text \<open>
  C10 (as amended). In either implementation, let a call \<open>a\<close> be outstanding under an
  identifier in a reachable state of an embedded provider, and let a further call \<open>b\<close>
  draw the same identifier. The registration of \<open>b\<close> overwrites the entry: the table
  holds \<open>b\<close> under the identifier and holds \<open>a\<close> nowhere, while the timer of \<open>a\<close> stays
  armed with the shared identifier. Whatever events follow, no callback of \<open>a\<close> is ever
  invoked, and the callbacks of \<open>b\<close> are invoked at most once. As long as the entry of
  \<open>b\<close> is in the table the timer of \<open>a\<close> is still armed, and its expiry then rejects \<open>b\<close>
  with the timeout error and removes the entry. In every regular continuation (fresh
  draws, and a \<open>result\<close> or an \<open>error\<close> in each versioned message naming a pending
  identifier), once the timer of \<open>a\<close> or the timer of \<open>b\<close> has fired, \<open>b\<close> has been
  completed exactly once. Exactly-once completion is violated for \<open>a\<close> only.
\<close>

theorem identifier_collision:
  assumes R: "(R = run \<and> S = step \<and> E = timeout_error)
      \<or> (R = run2 \<and> S = step2 \<and> E = timeout_error2)"
    and st: "st = R (new_provider origin ms True) evs0"
    and out: "completers st (getUniqueId draw) = Some a"
    and st2: "st2 = R st [Send draw name args]"
    and b: "b = promises st"
  shows "completers st2 (getUniqueId draw) = Some b
    \<and> (\<forall>k. completers st2 k \<noteq> Some a)
    \<and> timers st2 a = Some (getUniqueId draw)
    \<and> (\<forall>evs. invocations (R st2 evs) a = 0)
    \<and> (\<forall>evs. invocations (R st2 evs) b \<le> 1)
    \<and> (\<forall>evs. completers (R st2 evs) (getUniqueId draw) = Some b \<longrightarrow>
           timers (R st2 evs) a = Some (getUniqueId draw)
           \<and> settled (R (R st2 evs) [Timeout a])
               = settled (R st2 evs) @ [(b, Reject (E (getUniqueId draw) ms))]
           \<and> completers (R (R st2 evs) [Timeout a]) (getUniqueId draw) = None)
    \<and> (\<forall>evs. regular_run S st2 evs
           \<and> (timers (R st2 evs) a = None \<or> timers (R st2 evs) b = None) \<longrightarrow>
           invocations (R st2 evs) b = 1)"
proof -
  let ?k = "getUniqueId draw"
  from R have fold: "R s evs = foldl S s evs" for s evs
    by (auto simp: run_def run2_def)
  from R have eff: "effect (regular s e) s (S s e)" for s e
    by (auto simp: step_effect step2_effect)
  from R have sent: "S s (Send draw name args) = fst (send draw name args s)" for s
    by (auto simp: send2_send)
  from R st have safe: "safe st" and cfg: "nested st" "timeoutMilliseconds st = ms"
    using safe_run [OF safe_new, of origin ms True evs0]
      safe_run2 [OF safe_new, of origin ms True evs0]
      run_config [of "new_provider origin ms True" evs0]
      run2_config [of "new_provider origin ms True" evs0]
    by (auto simp: new_provider_def)
  have safeR: "safe (R s evs)" if "safe s" for s evs
    using R that safe_run safe_run2 by auto
  have cfgR: "timeoutMilliseconds (R s evs) = timeoutMilliseconds s" for s evs
    using R run_config [of s evs] run2_config [of s evs] by auto
  note Sf = safeD [OF safe]
  have a: "timers st a = Some ?k" "a < promises st" "invocations st a = 0"
    using out Sf(1) [of ?k a] Sf(2) [of ?k a] Sf(3) [of a ?k] by simp_all
  have eq: "st2 = fst (send draw name args st)"
    using st2 by (simp add: fold sent)
  have f: "promises st2 = Suc b" "settled st2 = settled st"
    "completers st2 = (completers st)(?k \<mapsto> b)"
    "timers st2 = (timers st)(b \<mapsto> ?k)"
    "timeoutMilliseconds st2 = ms"
    by (simp_all add: eq send_registers [OF cfg(1)] b cfg(2))
  from a(2) have ab: "a \<noteq> b" "a < promises st2" "b < promises st2"
    by (simp_all add: b f)
  have c1: "completers st2 ?k = Some b" by (simp add: f)
  have c2: "completers st2 k \<noteq> Some a" for k
    using ab(1) a(1) Sf(1) [of k a] by (auto simp: f)
  have c3: "timers st2 a = Some ?k" using ab(1) a(1) by (simp add: f)
  have inv2: "invocations st2 a = 0" "invocations st2 b = 0"
    using a(3) Sf(5) [of b] by (simp_all add: invocations_def f b)
  have safe2: "safe st2"
    using safe_effect [OF eff safe, of "Send draw name args"] by (simp add: eq sent)
  have "orphan st2 a" using c2 ab(2) by (simp add: orphan_def)
  then have never: "invocations (R st2 evs) a = 0" for evs
    using R orphan_run [of st2 a evs] orphan_run2 [of st2 a evs] inv2(1) by auto
  have once: "invocations (R st2 evs) b \<le> 1" for evs
    using safeD(4) [OF safeR [OF safe2]] by simp
  have shared: "completers (R st2 evs) ?k = Some b \<longrightarrow> timers (R st2 evs) a = Some ?k" for evs
    using shared_timer_fold [of S a st2 b ?k evs] eff ab(2,3) c3 by (simp add: fold)
  have fire: "timers (R st2 evs) a = Some ?k
      \<and> settled (R (R st2 evs) [Timeout a]) = settled (R st2 evs) @ [(b, Reject (E ?k ms))]
      \<and> completers (R (R st2 evs) [Timeout a]) ?k = None"
    if entry: "completers (R st2 evs) ?k = Some b" for evs
  proof -
    let ?st3 = "R st2 evs"
    from entry shared have t: "timers ?st3 a = Some ?k" by blast
    have ms: "timeoutMilliseconds ?st3 = ms" by (simp add: cfgR f)
    have "R ?st3 [Timeout a] = S ?st3 (Timeout a)" by (simp add: fold)
    with R t entry ms show ?thesis
      by (auto simp: timeout_callback_def timeout_callback2_def lookup_completer_def
          invoke_def delete_completer_def)
  qed
  have exact: "invocations (R st2 evs) b = 1"
    if reg: "regular_run S st2 evs"
      and gone: "timers (R st2 evs) a = None \<or> timers (R st2 evs) b = None" for evs
  proof -
    have pend: "invocations (R st2 evs) b = 0 \<longrightarrow>
        timers (R st2 evs) b = Some ?k \<and> completers (R st2 evs) ?k = Some b"
      using pending_fold [of S st2 evs b ?k] eff reg ab(3) c1 by (simp add: fold f)
    have "invocations (R st2 evs) b \<noteq> 0"
    proof
      assume "invocations (R st2 evs) b = 0"
      with pend have "timers (R st2 evs) b = Some ?k" "completers (R st2 evs) ?k = Some b"
        by simp_all
      with shared [of evs] gone show False by simp
    qed
    with once [of evs] show ?thesis by simp
  qed
  from c1 c2 c3 never once fire exact show ?thesis by blast
qed

text \<open>C10 with both calls drawing 7 at a fresh provider.\<close>

theorem identifier_collision_witness:
  "\<forall>evs. invocations
     (run (run (run (new_provider ''*'' (Number 60000) True) [Send 7 ''eth_accounts'' (JArr [])])
        [Send 7 ''eth_sign'' (JArr [])]) evs) 0 = 0"
proof -
  have "completers (run (new_provider ''*'' (Number 60000) True)
      [Send 7 ''eth_accounts'' (JArr [])]) (getUniqueId 7) = Some 0"
    by (simp add: run_def call_eval)
  from identifier_collision [OF disjI1 [OF conjI [OF refl conjI [OF refl refl]]] refl this refl refl]
  show ?thesis by blast
qed

text \<open>
  C10 as stated says exactly-once completion is violated for both calls; the second of
  two colliding calls is completed exactly once.
\<close>

theorem second_call_completed_once:
  "invocations (run (new_provider ''*'' (Number 60000) True)
      [Send 7 ''eth_accounts'' (JArr []), Send 7 ''eth_sign'' (JArr []), Timeout 0, Timeout 1]) 1 = 1
   \<and> invocations (run2 (new_provider ''*'' (Number 60000) True)
      [Send 7 ''eth_accounts'' (JArr []), Send 7 ''eth_sign'' (JArr []), Timeout 0, Timeout 1]) 1 = 1"
  by (simp add: run_def run2_def new_provider_def send_def execute_def send2_def
      isEmbeddedInIFrame_def Let_def getUniqueId_7 timeout_callback_def timeout_callback2_def
      lookup_completer_def invoke_def delete_completer_def invocations_def)


section \<open>Malformed inbound messages\<close>

text \<open>
  C2. The claim says a versioned message that names a pending call and carries neither
  \<open>result\<close> nor \<open>error\<close> leaves the entry in the table until the timeout. Both handlers
  delete the entry without invoking a callback, and the timer then finds nothing to
  reject: the call is never completed.
\<close>

theorem malformed_response_drops_entry:
  "(let st = run (new_provider ''*'' (Number 60000) True)
              [Send 7 ''eth_sign'' (JArr []),
               Message (JObj [(''jsonrpc'', JStr ''2.0''), (''id'', JStr ''7'')])]
    in completers st ''7'' = None \<and> settled st = [] \<and> settled (step st (Timeout 0)) = [])
   \<and>
   (let st = run2 (new_provider ''*'' (Number 60000) True)
              [Send 7 ''eth_sign'' (JArr []),
               Message (JObj [(''jsonrpc'', JStr ''2.0''), (''id'', JStr ''7'')])]
    in completers st ''7'' = None \<and> settled st = [] \<and> settled (step2 st (Timeout 0)) = [])"
  by (simp add: run_def run2_def new_provider_def send_def execute_def send2_def
      isEmbeddedInIFrame_def request_payload_def Let_def getUniqueId_7
      handleParentWindowMessage_def handleJsonrpcMessage_def complete_pending_def
      complete_pending2_def dispatch_method_def lookup_completer_def invoke_def
      delete_completer_def JSON_RPC_VERSION_def timeout_callback_def timeout_callback2_def
      object_prototype_keys_def)

text \<open>
  C3. The claim says the handler never throws. On a versioned message with the method
  \<open>close\<close> and no \<open>params\<close>, both handlers let the TypeError of \<open>message.params[0]\<close>
  escape, in any state.
\<close>

theorem handler_throws_on_missing_params:
  "snd (handleParentWindowMessage st
          (JObj [(''jsonrpc'', JStr ''2.0''), (''method'', JStr ''close'')])) = Some TypeError
   \<and> snd (handleJsonrpcMessage st
          (JObj [(''jsonrpc'', JStr ''2.0''), (''method'', JStr ''close'')])) = Some TypeError"
  by (simp add: handleParentWindowMessage_def handleJsonrpcMessage_def complete_pending_def
      complete_pending2_def dispatch_method_def JSON_RPC_VERSION_def Let_def)

section \<open>Calls outside a frame\<close>

text \<open>
  C7. When the context is not nested, \<open>send\<close> and \<open>execute\<close> of the first
  implementation and \<open>send\<close> of the second return a promise rejected with the
  not-embedded error and leave the state as it was: no completer stored, no timer
  armed, nothing posted.
\<close>

theorem not_embedded_fails_without_effect:
  "\<not> isEmbeddedInIFrame st \<Longrightarrow>
     send draw method params st = (st, Inl (Error ''Not embedded within an iframe.''))
     \<and> execute draw method params st = (st, Inl (Error ''Not embedded within an iframe.''))
     \<and> send2 draw method params st = (st, Inl (Error ''Not embedded within an iframe.''))"
  by (simp add: send_def execute_def send2_def)

text \<open>C7 at a provider constructed in a top-level window.\<close>

theorem not_embedded_fails_without_effect_witness:
  "\<not> isEmbeddedInIFrame (new_provider ''*'' (Number 60000) False)
   \<and> send 7 ''eth_sign'' (JArr [JStr ''hello'', JStr ''world'']) (new_provider ''*'' (Number 60000) False)
       = (new_provider ''*'' (Number 60000) False, Inl (Error ''Not embedded within an iframe.''))"
  using not_embedded_fails_without_effect
    [of "new_provider ''*'' (Number 60000) False" 7 "''eth_sign''" "JArr [JStr ''hello'', JStr ''world'']"]
  by (simp add: isEmbeddedInIFrame_def new_provider_def)

section \<open>The two implementations compared\<close>




section \<open>Timer expiry\<close>

text \<open>
  C6 (as amended). Let the timer armed by call \<open>p\<close> expire, closed over the identifier
  \<open>ident\<close>, in either implementation. If the table holds an entry under \<open>ident\<close> (the
  entry of \<open>p\<close>, or the entry of another call \<open>c\<close> that drew the same identifier), the
  call of that entry is rejected with an \<open>Error\<close> whose message carries the identifier
  and the configured duration (the first implementation writes the identifier in double
  quotes, the second does not), and the entry is removed. If the table holds no entry
  under the identifier a call drew, the callback rejects nothing and leaves the table
  as it is; only the fired timer is gone.
\<close>

theorem timer_expiry:
  assumes "timers st p = Some ident"
  shows "(completers st ident = Some c \<longrightarrow>
            step st (Timeout p) =
              st\<lparr> timers := (timers st)(p := None),
                  settled := settled st @
                    [(c, Reject (Error (''RPC ID '' @ [CHR 0x22] @ ident @ [CHR 0x22]
                          @ '' timed out after '' @ Number_toString (timeoutMilliseconds st)
                          @ '' milliseconds'')))],
                  completers := (completers st)(ident := None) \<rparr>
          \<and> step2 st (Timeout p) =
              st\<lparr> timers := (timers st)(p := None),
                  settled := settled st @
                    [(c, Reject (Error (''RPC ID '' @ ident
                          @ '' timed out after '' @ Number_toString (timeoutMilliseconds st)
                          @ '' milliseconds'')))],
                  completers := (completers st)(ident := None) \<rparr>)
       \<and> (completers st ident = None \<and> ident = getUniqueId draw \<longrightarrow>
            step st (Timeout p) = st\<lparr>timers := (timers st)(p := None)\<rparr>
          \<and> step2 st (Timeout p) = st\<lparr>timers := (timers st)(p := None)\<rparr>)"
  using assms getUniqueId_own [of draw]
  by (auto simp: timeout_callback_def timeout_callback2_def lookup_completer_def invoke_def
      delete_completer_def timeout_error_def timeout_error2_def dquote_def)

text \<open>
  C6 on a call that times out after the default 60000 milliseconds, and on a call
  answered before its timer fires.
\<close>

theorem timer_expiry_witness:
  "settled (step (run (new_provider ''*'' (Number 60000) True) [Send 7 ''eth_sign'' (JArr [])])
      (Timeout 0))
     = [(0, Reject (Error (''RPC ID '' @ [CHR 0x22] @ ''7'' @ [CHR 0x22]
                            @ '' timed out after 60000 milliseconds'')))]
   \<and> settled (step (run (new_provider ''*'' (Number 60000) True)
        [Send 7 ''eth_sign'' (JArr []),
         Message (JObj [(''jsonrpc'', JStr ''2.0''), (''id'', JStr ''7''), (''result'', JStr ''0x0000'')])])
        (Timeout 0))
     = [(0, Resolve (JObj [(''jsonrpc'', JStr ''2.0''), (''id'', JStr ''7''), (''result'', JStr ''0x0000'')]))]"
proof -
  let ?s1 = "run (new_provider ''*'' (Number 60000) True) [Send 7 ''eth_sign'' (JArr [])]"
  let ?s2 = "run (new_provider ''*'' (Number 60000) True)
        [Send 7 ''eth_sign'' (JArr []),
         Message (JObj [(''jsonrpc'', JStr ''2.0''), (''id'', JStr ''7''), (''result'', JStr ''0x0000'')])]"
  have a: "timers ?s1 0 = Some ''7''" "completers ?s1 ''7'' = Some 0" "settled ?s1 = []"
    "timeoutMilliseconds ?s1 = Number 60000"
    by (simp_all add: run_def call_eval)
  have b: "timers ?s2 0 = Some ''7''" "completers ?s2 ''7'' = None"
    "settled ?s2 = [(0, Resolve (JObj [(''jsonrpc'', JStr ''2.0''), (''id'', JStr ''7''), (''result'', JStr ''0x0000'')]))]"
    by (simp_all add: run_def call_eval handler_eval)
  from timer_expiry [OF a(1), of 0 7] a(2,3,4)
  have "settled (step ?s1 (Timeout 0))
      = [(0, Reject (Error (''RPC ID '' @ [CHR 0x22] @ ''7'' @ [CHR 0x22]
                            @ '' timed out after 60000 milliseconds'')))]"
    by (simp add: Number_toString_60000)
  moreover from timer_expiry [OF b(1), of 0 7] b(2,3)
  have "settled (step ?s2 (Timeout 0))
      = [(0, Resolve (JObj [(''jsonrpc'', JStr ''2.0''), (''id'', JStr ''7''), (''result'', JStr ''0x0000'')]))]"
    by (simp add: getUniqueId_7)
  ultimately show ?thesis by blast
qed

text \<open>
  C6 as stated fails: the entry of the first call is removed by its response, a second
  call draws the same identifier, and the first call's timer then rejects the second
  call and removes its entry.
\<close>

theorem timer_rejects_later_call:
  "completers (run (new_provider ''*'' (Number 60000) True)
      [Send 7 ''eth_sign'' (JArr []),
       Message (JObj [(''jsonrpc'', JStr ''2.0''), (''id'', JStr ''7''), (''result'', JStr ''0x0000'')]),
       Send 7 ''eth_accounts'' (JArr [])]) ''7'' = Some 1
   \<and> settled (run (new_provider ''*'' (Number 60000) True)
      [Send 7 ''eth_sign'' (JArr []),
       Message (JObj [(''jsonrpc'', JStr ''2.0''), (''id'', JStr ''7''), (''result'', JStr ''0x0000'')]),
       Send 7 ''eth_accounts'' (JArr []),
       Timeout 0])
     = [(0, Resolve (JObj [(''jsonrpc'', JStr ''2.0''), (''id'', JStr ''7''), (''result'', JStr ''0x0000'')])),
        (1, Reject (timeout_error ''7'' (Number 60000)))]
   \<and> completers (run (new_provider ''*'' (Number 60000) True)
      [Send 7 ''eth_sign'' (JArr []),
       Message (JObj [(''jsonrpc'', JStr ''2.0''), (''id'', JStr ''7''), (''result'', JStr ''0x0000'')]),
       Send 7 ''eth_accounts'' (JArr []),
       Timeout 0]) ''7'' = None"
  by (simp add: run_def call_eval handler_eval timeout_callback_def)


section \<open>Responses and notifications\<close>

text \<open>
  C8. The claim says a message that names a pending call, carries a \<open>result\<close> and has a
  recognised \<open>method\<close> both completes the call and invokes the listeners of the event.
  On such a message with the method \<open>chainChanged\<close> and no \<open>params\<close>, both handlers
  complete the call and remove its entry, then throw the TypeError of
  \<open>message.params[0]\<close> before any \<open>emit\<close>: no listener is invoked.
\<close>

theorem completed_call_without_notification:
  "handleParentWindowMessage
     (run (new_provider ''*'' (Number 60000) True) [Send 7 ''eth_chainId'' (JArr [])])
     (JObj [(''jsonrpc'', JStr ''2.0''), (''id'', JStr ''7''), (''result'', JStr ''0x1''),
            (''method'', JStr ''chainChanged'')])
   = ((run (new_provider ''*'' (Number 60000) True) [Send 7 ''eth_chainId'' (JArr [])])
        \<lparr> settled := [(0, Resolve (JObj [(''jsonrpc'', JStr ''2.0''), (''id'', JStr ''7''),
                (''result'', JStr ''0x1''), (''method'', JStr ''chainChanged'')]))],
           completers := Map.empty,
           emitted := [] \<rparr>, Some TypeError)
   \<and> handleJsonrpcMessage
     (run2 (new_provider ''*'' (Number 60000) True) [Send 7 ''eth_chainId'' (JArr [])])
     (JObj [(''jsonrpc'', JStr ''2.0''), (''id'', JStr ''7''), (''result'', JStr ''0x1''),
            (''method'', JStr ''chainChanged'')])
   = ((run2 (new_provider ''*'' (Number 60000) True) [Send 7 ''eth_chainId'' (JArr [])])
        \<lparr> settled := [(0, Resolve (JStr ''0x1''))],
           completers := Map.empty,
           emitted := [] \<rparr>, Some TypeError)"
  by (simp add: run_def run2_def call_eval handler_eval)


text \<open>
  C4 (as amended). In the first implementation, a versioned message that names a pending
  call not yet settled and carries an \<open>error\<close> with \<open>code\<close> -32000 and \<open>reason\<close>
  "Unauthorized" makes the promise returned by \<open>send\<close> reject with an \<open>RpcError\<close> whose
  \<open>code\<close> is -32000 and whose \<open>reason\<close> is "Unauthorized".
\<close>

theorem rpc_error_rejection:
  assumes "field d ''jsonrpc'' = JStr JSON_RPC_VERSION"
    and "\<not> nullish (field d ''id'')"
    and "ToString (field d ''id'') = Some key"
    and "completers st key = Some p"
    and "outcome st p = None"
    and "has_field d ''error''"
    and "field (field d ''error'') ''code'' = JNum (Number (- 32000))"
    and "field (field d ''error'') ''reason'' = JStr ''Unauthorized''"
  shows "send_outcome (step st (Message d)) p
           = Some (Reject (new_RpcError (JNum (Number (- 32000))) (JStr ''Unauthorized'')))
       \<and> is_RpcError (new_RpcError (JNum (Number (- 32000))) (JStr ''Unauthorized''))
       \<and> error_code (new_RpcError (JNum (Number (- 32000))) (JStr ''Unauthorized''))
           = JNum (Number (- 32000))
       \<and> error_reason (new_RpcError (JNum (Number (- 32000))) (JStr ''Unauthorized''))
           = JStr ''Unauthorized''"
proof -
  from assms(2,3,4,6) have cp: "complete_pending st d =
      (delete_completer key (invoke p (Resolve d) st), None)"
    by (auto simp: complete_pending_def Let_def lookup_completer_def nullish_iff)
  from assms(1) have "truthy d" by (rule versioned_truthy)
  with assms(1) have "settled (step st (Message d)) = settled st @ [(p, Resolve d)]"
    by (simp add: handler_settled cp invoke_def)
  with assms(5) have out: "outcome (step st (Message d)) p = Some (Resolve d)"
    by (simp add: outcome_def map_add_def)
  from assms(7) have "\<not> nullish (field d ''error'')"
    by (cases "field d ''error''") simp_all
  with assms(6,7,8) have "send_settle (Resolve d)
      = Reject (new_RpcError (JNum (Number (- 32000))) (JStr ''Unauthorized''))"
    by simp
  with out show ?thesis
    by (simp add: send_outcome_def new_RpcError_def)
qed

text \<open>C4 on the call \<open>send('eth_sign', ['hello', 'world'])\<close>.\<close>

theorem rpc_error_rejection_witness:
  "send_outcome
     (step (run (new_provider ''*'' (Number 60000) True) [Send 7 ''eth_sign'' (JArr [JStr ''hello'', JStr ''world''])])
        (Message (JObj [(''jsonrpc'', JStr ''2.0''), (''id'', JStr ''7''),
           (''error'', JObj [(''code'', JNum (Number (- 32000))), (''reason'', JStr ''Unauthorized'')])]))) 0
   = Some (Reject (new_RpcError (JNum (Number (- 32000))) (JStr ''Unauthorized'')))"
proof -
  let ?st = "run (new_provider ''*'' (Number 60000) True) [Send 7 ''eth_sign'' (JArr [JStr ''hello'', JStr ''world''])]"
  let ?d = "JObj [(''jsonrpc'', JStr ''2.0''), (''id'', JStr ''7''),
           (''error'', JObj [(''code'', JNum (Number (- 32000))), (''reason'', JStr ''Unauthorized'')])]"
  have h1: "field ?d ''jsonrpc'' = JStr JSON_RPC_VERSION" by (simp add: JSON_RPC_VERSION_def)
  have h2: "\<not> nullish (field ?d ''id'')" by simp
  have h3: "ToString (field ?d ''id'') = Some ''7''" by simp
  have h3': "completers ?st ''7'' = Some 0"
    by (simp add: run_def call_eval)
  have h4: "outcome ?st 0 = None" by (simp add: outcome_def run_def call_eval)
  have h5: "has_field ?d ''error''" by simp
  have h6: "field (field ?d ''error'') ''code'' = JNum (Number (- 32000))" by simp
  have h7: "field (field ?d ''error'') ''reason'' = JStr ''Unauthorized''" by simp
  from rpc_error_rejection [OF h1 h2 h3 h3' h4 h5 h6 h7] show ?thesis by blast
qed

text \<open>
  C4 as stated, for every call awaited through \<open>send\<close>, fails in the second
  implementation: its handler rejects with \<open>new Error(message.error.message)\<close>, a plain
  \<open>Error\<close> with an empty message and neither \<open>code\<close> nor \<open>reason\<close>.
\<close>

theorem plain_error_in_second_implementation:
  "outcome (run2 (new_provider ''*'' (Number 60000) True)
     [Send 7 ''eth_sign'' (JArr [JStr ''hello'', JStr ''world'']),
      Message (JObj [(''jsonrpc'', JStr ''2.0''), (''id'', JStr ''7''),
                     (''error'', JObj [(''code'', JNum (Number (- 32000))), (''reason'', JStr ''Unauthorized'')])])]) 0
     = Some (Reject (Error []))
   \<and> \<not> is_RpcError (Error []) \<and> error_code (Error []) = JUndefined
   \<and> error_reason (Error []) = JUndefined"
  by (simp add: run2_def call_eval handler_eval outcome_def new_Error_def)

section \<open>The request envelope\<close>

text \<open>
  C5 (as amended). In an embedded context a call hands the transport the object
  \<open>{jsonrpc: "2.0", id, method, params}\<close> with the target origin: the version field is
  named \<open>jsonrpc\<close>, \<open>method\<close> and \<open>params\<close> are the arguments of the call (so
  \<open>"eth_sign"\<close> and \<open>["hello", "world"]\<close> for that call), and \<open>id\<close> is a string, the
  decimal rendering of the draw; two calls carry the same \<open>id\<close> exactly when their draws
  are equal.
\<close>

theorem request_envelope:
  assumes "isEmbeddedInIFrame st"
  shows "posted (fst (send draw name args st)) =
           posted st @ [(JObj [(''jsonrpc'', JStr ''2.0''), (''id'', JStr (getUniqueId draw)),
                              (''method'', JStr name), (''params'', args)], targetOrigin st)]
       \<and> posted (fst (send2 draw name args st)) =
           posted st @ [(JObj [(''jsonrpc'', JStr ''2.0''), (''id'', JStr (getUniqueId draw)),
                              (''method'', JStr name), (''params'', args)], targetOrigin st)]
       \<and> (getUniqueId draw = getUniqueId draw' \<longleftrightarrow> draw = draw')"
  using assms
  by (simp add: send_def execute_def send2_def Let_def request_payload_def JSON_RPC_VERSION_def
      getUniqueId_inj)

text \<open>C5 on the call \<open>send('eth_sign', ['hello', 'world'])\<close> with the draw 7.\<close>

theorem request_envelope_witness:
  "posted (fst (send 7 ''eth_sign'' (JArr [JStr ''hello'', JStr ''world''])
            (new_provider ''*'' (Number 60000) True)))
     = [(JObj [(''jsonrpc'', JStr ''2.0''), (''id'', JStr ''7''), (''method'', JStr ''eth_sign''),
               (''params'', JArr [JStr ''hello'', JStr ''world''])], ''*'')]"
proof -
  have h: "isEmbeddedInIFrame (new_provider ''*'' (Number 60000) True)"
    by (simp add: isEmbeddedInIFrame_def new_provider_def)
  from request_envelope [OF h, of 7 "''eth_sign''" "JArr [JStr ''hello'', JStr ''world'']"]
  show ?thesis by (simp add: getUniqueId_7 new_provider_def)
qed

text \<open>
  C5 as stated fails: the envelope has no field named \<open>protocolVersion\<close>, and two calls
  that draw the same number carry the same \<open>id\<close>.
\<close>

theorem envelope_names_version_jsonrpc:
  "\<not> has_field (fst (last (posted (fst (send 7 ''eth_sign'' (JArr [JStr ''hello'', JStr ''world''])
        (new_provider ''*'' (Number 60000) True)))))) ''protocolVersion''
   \<and> field (fst (posted (run (new_provider ''*'' (Number 60000) True)
        [Send 7 ''eth_sign'' (JArr [JStr ''hello'', JStr ''world'']),
         Send 7 ''eth_sign'' (JArr [JStr ''hello'', JStr ''world''])]) ! 0)) ''id''
     = field (fst (posted (run (new_provider ''*'' (Number 60000) True)
        [Send 7 ''eth_sign'' (JArr [JStr ''hello'', JStr ''world'']),
         Send 7 ''eth_sign'' (JArr [JStr ''hello'', JStr ''world''])]) ! 1)) ''id''"
  by (simp add: run_def call_eval)

end
